theory Spec2Isabelle
  imports Main "HOL-Library.Multiset"
begin

unbundle bit_operations_syntax

section \<open>Memory model\<close>

text \<open>
  The arrays of \<^verbatim>\<open>radix_sort.h\<close> are lists, indexed by C \<^verbatim>\<open>int\<close>s. A read or a
  write outside the extent of an array is undefined behaviour in C; it is an error value
  here. The extent of an array is independent of the length \<open>n\<close> the caller passes:
  \<^verbatim>\<open>sort_radix(arr, n)\<close> receives a pointer, so the list may be longer or shorter than
  \<open>n\<close>.

  Array elements are C \<^verbatim>\<open>int\<close> values (32 bits, two's complement). The code only
  compares, copies, shifts and masks them, so they are the mathematical integers of the
  same value. Indices and counters are C \<^verbatim>\<open>int\<close>s as well; the model
  computes with them as mathematical integers, which is what the C program does as long
  as no index or counter expression leaves the range of \<^verbatim>\<open>int\<close>. That is so in
  every run evaluated below, and in the general theorems whenever the array has fewer
  than \<open>2^31 - 1\<close> elements. A right shift by 32 bits or more is undefined for a 32-bit \<^verbatim>\<open>int\<close>
  and is an error value. The block returned by \<^verbatim>\<open>malloc\<close> holds indeterminate
  values: its cells are \<open>None\<close> until written, and reading such a cell is an error.
  Allocation is assumed to succeed (the source does not check it).
\<close>

datatype error = Out_of_bounds | Undefined_shift | Uninitialized_read

definition rd :: "'a list \<Rightarrow> int \<Rightarrow> error + 'a" where
  "rd a i = (if 0 \<le> i \<and> i < int (length a) then Inr (a ! nat i) else Inl Out_of_bounds)"

definition wr :: "'a list \<Rightarrow> int \<Rightarrow> 'a \<Rightarrow> error + 'a list" where
  "wr a i v = (if 0 \<le> i \<and> i < int (length a) then Inr (a[nat i := v]) else Inl Out_of_bounds)"

definition MAX_THREADS :: int where
  "MAX_THREADS = 8"

definition RADIX :: int where
  "RADIX = 256"

definition INSERTION_SORT_THRESHOLD :: int where
  "INSERTION_SORT_THRESHOLD = 32"

text \<open>
  \<^verbatim>\<open>x >> k\<close> on a 32-bit \<^verbatim>\<open>int\<close>: undefined for \<open>k < 0\<close> and \<open>k \<ge> 32\<close>, the
  arithmetic shift otherwise.\<close>

definition shr :: "int \<Rightarrow> int \<Rightarrow> error + int" where
  "shr x k = (if k < 0 \<or> 32 \<le> k then Inl Undefined_shift else Inr (drop_bit (nat k) x))"

text \<open>\<^verbatim>\<open>(x >> (8 * digit_exp)) & 0xFF\<close>\<close>

definition digit_of :: "int \<Rightarrow> int \<Rightarrow> error + int" where
  "digit_of digit_exp x =
     (case shr x (8 * digit_exp) of Inl e \<Rightarrow> Inl e | Inr y \<Rightarrow> Inr (y AND 255))"

text \<open>
  \<^verbatim>\<open>a / b\<close> on \<^verbatim>\<open>int\<close>: the quotient of the absolute values, negative when the
  signs differ. The only divisor in the source is \<^verbatim>\<open>MAX_THREADS\<close>.\<close>

definition c_div :: "int \<Rightarrow> int \<Rightarrow> int" where
  "c_div a b = (if (a < 0) = (b < 0) then \<bar>a\<bar> div \<bar>b\<bar> else - (\<bar>a\<bar> div \<bar>b\<bar>))"

section \<open>\<^verbatim>\<open>sort_insertion\<close>\<close>

text \<open>
  The inner \<^verbatim>\<open>while (j >= start_idx && arr[j] > key)\<close> loop; it returns the array
  and the final \<open>j\<close>. The test \<^verbatim>\<open>j >= start_idx\<close> comes first and short-circuits.\<close>

function sort_insertion_while :: "int list \<Rightarrow> int \<Rightarrow> int \<Rightarrow> int \<Rightarrow> error + (int list \<times> int)" where
  "sort_insertion_while arr start_idx j key =
     (if j \<ge> start_idx then
        (case rd arr j of
           Inl e \<Rightarrow> Inl e
         | Inr v \<Rightarrow>
             if v > key then
               (case wr arr (j + 1) v of
                  Inl e \<Rightarrow> Inl e
                | Inr arr' \<Rightarrow> sort_insertion_while arr' start_idx (j - 1) key)
             else Inr (arr, j))
      else Inr (arr, j))"
  by pat_completeness auto
termination
  by (relation "measure (\<lambda>(arr, start_idx, j, key). nat (j - start_idx + 1))") auto

text \<open>The outer \<^verbatim>\<open>for (i = start_idx + 1; i <= end_idx; i++)\<close> loop, from \<open>i\<close> on.\<close>

function sort_insertion_for :: "int list \<Rightarrow> int \<Rightarrow> int \<Rightarrow> int \<Rightarrow> error + int list" where
  "sort_insertion_for arr start_idx end_idx i =
     (if i \<le> end_idx then
        (case rd arr i of
           Inl e \<Rightarrow> Inl e
         | Inr key \<Rightarrow>
             (case sort_insertion_while arr start_idx (i - 1) key of
                Inl e \<Rightarrow> Inl e
              | Inr (arr', j) \<Rightarrow>
                  (case wr arr' (j + 1) key of
                     Inl e \<Rightarrow> Inl e
                   | Inr arr'' \<Rightarrow> sort_insertion_for arr'' start_idx end_idx (i + 1))))
      else Inr arr)"
  by pat_completeness auto
termination
  by (relation "measure (\<lambda>(arr, start_idx, end_idx, i). nat (end_idx + 1 - i))") auto

definition sort_insertion :: "int list \<Rightarrow> int \<Rightarrow> int \<Rightarrow> error + int list" where
  "sort_insertion arr start_idx end_idx = sort_insertion_for arr start_idx end_idx (start_idx + 1)"

section \<open>\<^verbatim>\<open>sort_counting\<close>\<close>

text \<open>First loop: count the digits of \<open>arr[i..end_idx]\<close> into \<open>cnt_arr_local\<close>.\<close>

function count_digits :: "int list \<Rightarrow> int \<Rightarrow> int \<Rightarrow> int \<Rightarrow> int list \<Rightarrow> error + int list" where
  "count_digits arr end_idx digit_exp i cnt_arr_local =
     (if i \<le> end_idx then
        (case rd arr i of
           Inl e \<Rightarrow> Inl e
         | Inr x \<Rightarrow>
             (case digit_of digit_exp x of
                Inl e \<Rightarrow> Inl e
              | Inr digit \<Rightarrow>
                  (case rd cnt_arr_local digit of
                     Inl e \<Rightarrow> Inl e
                   | Inr c \<Rightarrow>
                       (case wr cnt_arr_local digit (c + 1) of
                          Inl e \<Rightarrow> Inl e
                        | Inr l' \<Rightarrow> count_digits arr end_idx digit_exp (i + 1) l'))))
      else Inr cnt_arr_local)"
  by pat_completeness auto
termination
  by (relation "measure (\<lambda>(arr, end_idx, digit_exp, i, l). nat (end_idx + 1 - i))") auto

text \<open>Second loop: \<^verbatim>\<open>cnt_arr_global[i] = cnt_arr_global[i] + cnt_arr_local[i]\<close> for \<open>i < RADIX\<close>.\<close>

function accumulate :: "int list \<Rightarrow> int \<Rightarrow> int list \<Rightarrow> error + int list" where
  "accumulate cnt_arr_local i cnt_arr_global =
     (if i < RADIX then
        (case rd cnt_arr_global i of
           Inl e \<Rightarrow> Inl e
         | Inr g \<Rightarrow>
             (case rd cnt_arr_local i of
                Inl e \<Rightarrow> Inl e
              | Inr l \<Rightarrow>
                  (case wr cnt_arr_global i (g + l) of
                     Inl e \<Rightarrow> Inl e
                   | Inr g' \<Rightarrow> accumulate cnt_arr_local (i + 1) g')))
      else Inr cnt_arr_global)"
  by pat_completeness auto
termination
  by (relation "measure (\<lambda>(l, i, g). nat (RADIX - i))") auto

text \<open>Third loop: \<^verbatim>\<open>cnt_arr_global[i] = cnt_arr_global[i] + cnt_arr_global[i - 1]\<close> for \<open>1 \<le> i < RADIX\<close>.\<close>

function prefix_sums :: "int \<Rightarrow> int list \<Rightarrow> error + int list" where
  "prefix_sums i cnt_arr_global =
     (if i < RADIX then
        (case rd cnt_arr_global i of
           Inl e \<Rightarrow> Inl e
         | Inr g \<Rightarrow>
             (case rd cnt_arr_global (i - 1) of
                Inl e \<Rightarrow> Inl e
              | Inr p \<Rightarrow>
                  (case wr cnt_arr_global i (g + p) of
                     Inl e \<Rightarrow> Inl e
                   | Inr g' \<Rightarrow> prefix_sums (i + 1) g')))
      else Inr cnt_arr_global)"
  by pat_completeness auto
termination
  by (relation "measure (\<lambda>(i, g). nat (RADIX - i))") auto

text \<open>
  Fourth loop, from \<open>i\<close> down to \<open>start_idx\<close>: place \<open>arr[i]\<close> at
  \<open>sorted_arr[cnt_arr_global[digit] - 1]\<close> and decrement the counter.\<close>

function distribute ::
  "int list \<Rightarrow> int \<Rightarrow> int \<Rightarrow> int \<Rightarrow> int list \<Rightarrow> int option list \<Rightarrow> error + (int list \<times> int option list)" where
  "distribute arr start_idx digit_exp i cnt_arr_global sorted_arr =
     (if i \<ge> start_idx then
        (case rd arr i of
           Inl e \<Rightarrow> Inl e
         | Inr x \<Rightarrow>
             (case digit_of digit_exp x of
                Inl e \<Rightarrow> Inl e
              | Inr digit \<Rightarrow>
                  (case rd cnt_arr_global digit of
                     Inl e \<Rightarrow> Inl e
                   | Inr c \<Rightarrow>
                       (case wr sorted_arr (c - 1) (Some x) of
                          Inl e \<Rightarrow> Inl e
                        | Inr s' \<Rightarrow>
                            (case wr cnt_arr_global digit (c - 1) of
                               Inl e \<Rightarrow> Inl e
                             | Inr g' \<Rightarrow> distribute arr start_idx digit_exp (i - 1) g' s')))))
      else Inr (cnt_arr_global, sorted_arr))"
  by pat_completeness auto
termination
  by (relation "measure (\<lambda>(arr, start_idx, digit_exp, i, g, s). nat (i - start_idx + 1))") auto

text \<open>Fifth loop: \<^verbatim>\<open>arr[i] = sorted_arr[i - start_idx]\<close> for \<open>i\<close> up to \<open>end_idx\<close>.\<close>

function copy_back :: "int option list \<Rightarrow> int \<Rightarrow> int \<Rightarrow> int \<Rightarrow> int list \<Rightarrow> error + int list" where
  "copy_back sorted_arr start_idx end_idx i arr =
     (if i \<le> end_idx then
        (case rd sorted_arr (i - start_idx) of
           Inl e \<Rightarrow> Inl e
         | Inr None \<Rightarrow> Inl Uninitialized_read
         | Inr (Some x) \<Rightarrow>
             (case wr arr i x of
                Inl e \<Rightarrow> Inl e
              | Inr arr' \<Rightarrow> copy_back sorted_arr start_idx end_idx (i + 1) arr'))
      else Inr arr)"
  by pat_completeness auto
termination
  by (relation "measure (\<lambda>(s, start_idx, end_idx, i, arr). nat (end_idx + 1 - i))") auto

text \<open>
  The whole function. It returns the four arrays it may have changed: \<open>arr\<close>,
  \<open>cnt_arr_local\<close>, \<open>cnt_arr_global\<close> and \<open>sorted_arr\<close>.\<close>

definition sort_counting ::
  "int list \<Rightarrow> int \<Rightarrow> int \<Rightarrow> int \<Rightarrow> int list \<Rightarrow> int list \<Rightarrow> int option list
    \<Rightarrow> error + (int list \<times> int list \<times> int list \<times> int option list)" where
  "sort_counting arr start_idx end_idx digit_exp cnt_arr_local cnt_arr_global sorted_arr =
     (case count_digits arr end_idx digit_exp start_idx cnt_arr_local of
        Inl e \<Rightarrow> Inl e
      | Inr l1 \<Rightarrow>
          (case accumulate l1 0 cnt_arr_global of
             Inl e \<Rightarrow> Inl e
           | Inr g1 \<Rightarrow>
               (case prefix_sums 1 g1 of
                  Inl e \<Rightarrow> Inl e
                | Inr g2 \<Rightarrow>
                    (case distribute arr start_idx digit_exp end_idx g2 sorted_arr of
                       Inl e \<Rightarrow> Inl e
                     | Inr (g3, s1) \<Rightarrow>
                         (case copy_back s1 start_idx end_idx start_idx arr of
                            Inl e \<Rightarrow> Inl e
                          | Inr arr' \<Rightarrow> Inr (arr', l1, g3, s1))))))"

section \<open>\<^verbatim>\<open>sort_radix_thread\<close> and \<^verbatim>\<open>sort_radix\<close>\<close>

text \<open>
  \<^verbatim>\<open>SortParams\<close>: the pointer fields are the arrays they point to. A worker returns
  the shared arrays as it leaves them: \<open>arr\<close>, \<open>cnt_arr_global\<close> and \<open>sorted_arr\<close>.\<close>

record SortParams =
  ptr_to_arr :: "int list"
  start_idx :: int
  end_idx :: int
  digit_exp :: int
  cnt_arr_local :: "int list"
  cnt_arr_global :: "int list"
  sorted_arr :: "int option list"

definition sort_radix_thread :: "SortParams \<Rightarrow> error + (int list \<times> int list \<times> int option list)" where
  "sort_radix_thread params =
     (let size = end_idx params - start_idx params + 1 in
      if size \<le> INSERTION_SORT_THRESHOLD then
        (case sort_insertion (ptr_to_arr params) (start_idx params) (end_idx params) of
           Inl e \<Rightarrow> Inl e
         | Inr arr' \<Rightarrow> Inr (arr', cnt_arr_global params, sorted_arr params))
      else
        (case sort_counting (ptr_to_arr params) (start_idx params) (end_idx params)
                (digit_exp params) (cnt_arr_local params) (cnt_arr_global params)
                (sorted_arr params) of
           Inl e \<Rightarrow> Inl e
         | Inr (arr', l', g', s') \<Rightarrow> Inr (arr', g', s')))"

text \<open>The loop \<^verbatim>\<open>for (i = 1; i < n; i++) if (arr[i] > max_elem) max_elem = arr[i];\<close>\<close>

function find_max :: "int list \<Rightarrow> int \<Rightarrow> int \<Rightarrow> int \<Rightarrow> error + int" where
  "find_max arr n i max_elem =
     (if i < n then
        (case rd arr i of
           Inl e \<Rightarrow> Inl e
         | Inr x \<Rightarrow> find_max arr n (i + 1) (if x > max_elem then x else max_elem))
      else Inr max_elem)"
  by pat_completeness auto
termination
  by (relation "measure (\<lambda>(arr, n, i, m). nat (n - i))") auto

text \<open>The chunk of worker \<open>i\<close>: \<open>(start_idx, end_idx)\<close> as the driver computes them.\<close>

definition chunk :: "int \<Rightarrow> int \<Rightarrow> int \<Rightarrow> int \<times> int" where
  "chunk n chunk_size i =
     (i * chunk_size, if i = MAX_THREADS - 1 then n - 1 else (i + 1) * chunk_size - 1)"

text \<open>
  The workers of one pass, from worker \<open>i\<close> on. The source starts them with
  \<^verbatim>\<open>pthread_create\<close> in the order \<open>0, \<dots>, 7\<close> and joins them all; here each worker
  runs to completion before the next one starts, which is one of the executions the
  threads admit. Every worker gets a fresh zeroed \<open>cnt_arr_local\<close> and shares \<open>arr\<close>,
  \<open>cnt_arr_global\<close> and \<open>sorted_arr\<close> with the others.\<close>

function run_workers ::
  "int \<Rightarrow> int \<Rightarrow> int \<Rightarrow> int \<Rightarrow> int list \<times> int list \<times> int option list
    \<Rightarrow> error + (int list \<times> int list \<times> int option list)" where
  "run_workers n chunk_size d i st =
     (if i < MAX_THREADS then
        (case st of (arr, g, s) \<Rightarrow>
           (case sort_radix_thread
                   \<lparr>ptr_to_arr = arr, start_idx = fst (chunk n chunk_size i),
                    end_idx = snd (chunk n chunk_size i), digit_exp = d,
                    cnt_arr_local = replicate (nat RADIX) 0, cnt_arr_global = g,
                    sorted_arr = s\<rparr> of
              Inl e \<Rightarrow> Inl e
            | Inr st' \<Rightarrow> run_workers n chunk_size d (i + 1) st'))
      else Inr st)"
  by pat_completeness auto
termination
  by (relation "measure (\<lambda>(n, c, d, i, st). nat (MAX_THREADS - i))") auto

text \<open>
  One digit pass (the body of the \<^verbatim>\<open>digit_exp\<close> loop): run the eight workers, then
  \<^verbatim>\<open>memset\<close> the global count array to zero.\<close>

definition radix_pass ::
  "int \<Rightarrow> int \<Rightarrow> int list \<times> int list \<times> int option list
    \<Rightarrow> error + (int list \<times> int list \<times> int option list)" where
  "radix_pass n d st =
     (let chunk_size = c_div (n + MAX_THREADS - 1) MAX_THREADS in
      case run_workers n chunk_size d 0 st of
        Inl e \<Rightarrow> Inl e
      | Inr (arr', g', s') \<Rightarrow> Inr (arr', replicate (nat RADIX) 0, s'))"

text \<open>
  The loop \<^verbatim>\<open>for (digit_exp = 0; max_elem >> (8 * digit_exp) > 0; digit_exp++)\<close>.
  The shift is an error from \<open>digit_exp = 4\<close> on, so the loop is left after at most four
  passes.\<close>

function radix_passes ::
  "int \<Rightarrow> int \<Rightarrow> int \<Rightarrow> int list \<times> int list \<times> int option list
    \<Rightarrow> error + (int list \<times> int list \<times> int option list)" where
  "radix_passes n max_elem d st =
     (case shr max_elem (8 * d) of
        Inl e \<Rightarrow> Inl e
      | Inr m \<Rightarrow>
          if m > 0 then
            (case radix_pass n d st of
               Inl e \<Rightarrow> Inl e
             | Inr st' \<Rightarrow> radix_passes n max_elem (d + 1) st')
          else Inr st)"
  by pat_completeness auto
termination
  by (relation "measure (\<lambda>(n, m, d, st). nat (4 - d))")
     (auto simp: shr_def split: if_splits)

text \<open>
  \<^verbatim>\<open>sort_radix(arr, n)\<close>; the result is the array. \<^verbatim>\<open>max_elem = arr[0]\<close> is read
  before anything looks at \<open>n\<close>.\<close>

definition sort_radix :: "int list \<Rightarrow> int \<Rightarrow> error + int list" where
  "sort_radix arr n =
     (case rd arr 0 of
        Inl e \<Rightarrow> Inl e
      | Inr a0 \<Rightarrow>
          (case find_max arr n 1 a0 of
             Inl e \<Rightarrow> Inl e
           | Inr max_elem \<Rightarrow>
               (case radix_passes n max_elem 0
                       (arr, replicate (nat RADIX) 0, replicate (nat n) None) of
                  Inl e \<Rightarrow> Inl e
                | Inr (arr', g', s') \<Rightarrow> Inr arr')))"

section \<open>Specification functions\<close>

text \<open>
  The functions of this section are not part of the program; the statements about the
  program are written with them. \<open>slice a s e\<close> is the inclusive range
  \<open>a[s..e]\<close> of an array.\<close>

definition slice :: "'a list \<Rightarrow> int \<Rightarrow> int \<Rightarrow> 'a list" where
  "slice a s e = take (nat (e - s + 1)) (drop (nat s) a)"

text \<open>
  Insertion of a key into a list from its right end, behind every element that is not
  greater: one round of the outer loop of \<^verbatim>\<open>sort_insertion\<close>, seen on the already
  sorted part. \<open>insert_desc\<close> is the same on the reversed list.\<close>

fun insert_desc :: "int \<Rightarrow> int list \<Rightarrow> int list" where
  "insert_desc key [] = [key]"
| "insert_desc key (x # xs) = (if x > key then x # insert_desc key xs else key # x # xs)"

definition insert_right :: "int \<Rightarrow> int list \<Rightarrow> int list" where
  "insert_right key xs = rev (insert_desc key (rev xs))"

text \<open>
  The digit \<^verbatim>\<open>(x >> (8 * digit_exp)) & 0xFF\<close> as a plain function, for the
  \<open>digit_exp\<close> at which the shift is defined.\<close>

definition radix_digit :: "int \<Rightarrow> int \<Rightarrow> int" where
  "radix_digit d x = drop_bit (nat (8 * d)) x AND 255"

text \<open>
  The running sums of a list, on top of \<open>acc\<close>: what the third loop of
  \<^verbatim>\<open>sort_counting\<close> leaves in the global count array.\<close>

fun running_sums :: "int \<Rightarrow> int list \<Rightarrow> int list" where
  "running_sums acc [] = []"
| "running_sums acc (x # xs) = (acc + x) # running_sums (acc + x) xs"

text \<open>How many elements of a list have a key below \<open>k\<close>, and equal to \<open>k\<close>.\<close>

definition count_below :: "('a \<Rightarrow> int) \<Rightarrow> 'a list \<Rightarrow> int \<Rightarrow> int" where
  "count_below f xs k = int (length (filter (\<lambda>x. f x < k) xs))"

definition count_eq :: "('a \<Rightarrow> int) \<Rightarrow> 'a list \<Rightarrow> int \<Rightarrow> int" where
  "count_eq f xs k = int (length (filter (\<lambda>x. f x = k) xs))"

declare sort_insertion_while.simps [simp del] sort_insertion_for.simps [simp del]
  count_digits.simps [simp del] accumulate.simps [simp del] prefix_sums.simps [simp del]
  distribute.simps [simp del] copy_back.simps [simp del] find_max.simps [simp del]
  run_workers.simps [simp del] radix_passes.simps [simp del]

section \<open>Reads and writes\<close>

lemma rd_ok: "0 \<le> i \<Longrightarrow> i < int (length a) \<Longrightarrow> rd a i = Inr (a ! nat i)"
  by (simp add: rd_def)

lemma wr_ok: "0 \<le> i \<Longrightarrow> i < int (length a) \<Longrightarrow> wr a i v = Inr (a[nat i := v])"
  by (simp add: wr_def)


lemma rd_at_length: "rd (as @ b # cs) (int (length as)) = Inr b"
  by (simp add: rd_def)

lemma wr_at_length: "wr (as @ b # cs) (int (length as)) v = Inr (as @ v # cs)"
  by (simp add: wr_def)


section \<open>Correctness of \<^verbatim>\<open>sort_insertion\<close>\<close>

lemma insert_right_Nil: "insert_right key [] = [key]"
  by (simp add: insert_right_def)

lemma insert_right_snoc:
  "insert_right key (xs @ [x]) = (if x > key then insert_right key xs @ [x] else xs @ [x, key])"
  by (simp add: insert_right_def)

lemma mset_insert_desc: "mset (insert_desc key xs) = add_mset key (mset xs)"
  by (induction xs) auto

lemma mset_insert_right: "mset (insert_right key xs) = add_mset key (mset xs)"
  by (simp add: insert_right_def mset_insert_desc)

lemma length_insert_right: "length (insert_right key xs) = Suc (length xs)"
  using arg_cong [OF mset_insert_right, of size key xs] by simp

lemma set_insert_right: "set (insert_right key xs) = insert key (set xs)"
  using arg_cong [OF mset_insert_right, of set_mset key xs] by simp

lemma sorted_insert_right: "sorted xs \<Longrightarrow> sorted (insert_right key xs)"
proof (induction xs rule: rev_induct)
  case Nil
  show ?case by (simp add: insert_right_Nil)
next
  case (snoc x xs)
  from snoc.prems have sx: "sorted xs" and le: "\<forall>y\<in>set xs. y \<le> x"
    by (auto simp: sorted_append)
  show ?case
  proof (cases "x > key")
    case True
    with snoc.IH [OF sx] le show ?thesis
      by (auto simp: insert_right_snoc sorted_append set_insert_right)
  next
    case False
    with snoc.prems show ?thesis
      by (auto simp: insert_right_snoc sorted_append)
  qed
qed

lemma while_then_write:
  "(case sort_insertion_while (pre @ xs @ y # post) (int (length pre))
           (int (length pre) + int (length xs) - 1) key of
      Inl e \<Rightarrow> Inl e
    | Inr (arr', j) \<Rightarrow> wr arr' (j + 1) key)
   = Inr (pre @ insert_right key xs @ post)"
proof (induction xs arbitrary: y post rule: rev_induct)
  case Nil
  show ?case
    using wr_at_length [of pre y post key]
    by (subst sort_insertion_while.simps) (simp add: insert_right_Nil)
next
  case (snoc x xs)
  let ?j = "int (length pre) + int (length xs)"
  have arr: "pre @ (xs @ [x]) @ y # post = (pre @ xs) @ x # y # post"
    by simp
  have rdj: "rd (pre @ (xs @ [x]) @ y # post) ?j = Inr x"
    using rd_at_length [of "pre @ xs" x "y # post"] by simp
  show ?case
  proof (cases "x > key")
    case True
    have wrj: "wr (pre @ (xs @ [x]) @ y # post) (?j + 1) x = Inr (pre @ xs @ x # x # post)"
      using wr_at_length [of "pre @ xs @ [x]" y post x] by (simp add: ac_simps)
    show ?thesis
      using True snoc.IH [where y = x and post = "x # post"] rdj wrj
      by (subst sort_insertion_while.simps) (simp add: insert_right_snoc)
  next
    case False
    have wrj: "wr (pre @ (xs @ [x]) @ y # post) (?j + 1) key = Inr (pre @ xs @ x # key # post)"
      using wr_at_length [of "pre @ xs @ [x]" y post key] by (simp add: ac_simps)
    show ?thesis
      using False rdj wrj
      by (subst sort_insertion_while.simps) (simp add: insert_right_snoc)
  qed
qed

lemma for_from:
  "sort_insertion_for (pre @ xs @ rest @ post) (int (length pre))
      (int (length pre) + int (length xs) + int (length rest) - 1)
      (int (length pre) + int (length xs))
   = Inr (pre @ foldl (\<lambda>acc key. insert_right key acc) xs rest @ post)"
proof (induction rest arbitrary: xs)
  case Nil
  show ?case by (subst sort_insertion_for.simps) simp
next
  case (Cons r rest)
  have rdi: "rd (pre @ xs @ (r # rest) @ post) (int (length pre) + int (length xs)) = Inr r"
    using rd_at_length [of "pre @ xs" r "rest @ post"] by simp
  have ww: "(case sort_insertion_while (pre @ xs @ (r # rest) @ post) (int (length pre))
           (int (length pre) + int (length xs) - 1) r of
      Inl e \<Rightarrow> Inl e
    | Inr (arr', j) \<Rightarrow> wr arr' (j + 1) r) = Inr (pre @ insert_right r xs @ rest @ post)"
    using while_then_write [where pre = pre and xs = xs and y = r and post = "rest @ post" and key = r] by simp
  have ih: "sort_insertion_for (pre @ insert_right r xs @ rest @ post) (int (length pre))
      (int (length pre) + int (length xs) + int (length (r # rest)) - 1)
      (int (length pre) + int (length xs) + 1)
   = Inr (pre @ foldl (\<lambda>acc key. insert_right key acc) (insert_right r xs) rest @ post)"
    using Cons.IH [where xs = "insert_right r xs"] by (simp add: length_insert_right ac_simps)
  from ww obtain a' j where
    w1: "sort_insertion_while (pre @ xs @ (r # rest) @ post) (int (length pre))
           (int (length pre) + int (length xs) - 1) r = Inr (a', j)" and
    w2: "wr a' (j + 1) r = Inr (pre @ insert_right r xs @ rest @ post)"
    by (auto split: sum.splits prod.splits)
  show ?case
    using rdi w1 w2 ih by (subst sort_insertion_for.simps) simp
qed

lemma slice_decomp:
  assumes "0 \<le> s" "s \<le> e" "e < int (length a)"
  shows "a = take (nat s) a @ slice a s e @ drop (nat e + 1) a"
    and "length (slice a s e) = nat (e - s + 1)"
    and "slice a s e = a ! nat s # slice a (s + 1) e"
proof -
  have n: "nat e + 1 = nat s + nat (e - s + 1)"
    using assms by linarith
  have "drop (nat e + 1) a = drop (nat (e - s + 1)) (drop (nat s) a)"
    using n by (simp add: add.commute)
  then show "a = take (nat s) a @ slice a s e @ drop (nat e + 1) a"
    unfolding slice_def by (simp del: drop_drop)
  show "length (slice a s e) = nat (e - s + 1)"
    using assms by (simp add: slice_def)
  have "nat (e - s + 1) = Suc (nat (e - (s + 1) + 1))" "nat (s + 1) = Suc (nat s)"
    using assms by linarith+
  moreover have "drop (nat s) a = a ! nat s # drop (Suc (nat s)) a"
    using assms by (simp add: Cons_nth_drop_Suc)
  ultimately show "slice a s e = a ! nat s # slice a (s + 1) e"
    by (simp add: slice_def)
qed

lemma sorted_foldl_insert_right:
  "sorted xs \<Longrightarrow> sorted (foldl (\<lambda>acc key. insert_right key acc) xs rest)"
  by (induction rest arbitrary: xs) (simp_all add: sorted_insert_right)

lemma mset_foldl_insert_right:
  "mset (foldl (\<lambda>acc key. insert_right key acc) xs rest) = mset xs + mset rest"
  by (induction rest arbitrary: xs) (simp_all add: mset_insert_right)

lemma foldl_insert_right_sort:
  "foldl (\<lambda>acc key. insert_right key acc) [x] rest = sort (x # rest)"
  by (rule properties_for_sort [symmetric])
     (simp_all add: mset_foldl_insert_right sorted_foldl_insert_right)

lemma sort_insertion_eq:
  assumes "0 \<le> s" "s \<le> e" "e < int (length arr)"
  shows "sort_insertion arr s e
         = Inr (take (nat s) arr @ sort (slice arr s e) @ drop (nat e + 1) arr)"
proof -
  let ?pre = "take (nat s) arr" and ?post = "drop (nat e + 1) arr"
  let ?rest = "slice arr (s + 1) e"
  have d: "arr = ?pre @ [arr ! nat s] @ ?rest @ ?post"
    using slice_decomp(1,3) [OF assms] by simp
  have lp: "int (length ?pre) = s" using assms by simp
  have lr: "int (length ?rest) = e - s" using assms by (simp add: slice_def)
  have "sort_insertion_for (?pre @ [arr ! nat s] @ ?rest @ ?post) (int (length ?pre))
      (int (length ?pre) + int (length [arr ! nat s]) + int (length ?rest) - 1)
      (int (length ?pre) + int (length [arr ! nat s]))
   = Inr (?pre @ foldl (\<lambda>acc key. insert_right key acc) [arr ! nat s] ?rest @ ?post)"
    by (rule for_from)
  then have "sort_insertion_for arr s e (s + 1)
    = Inr (?pre @ foldl (\<lambda>acc key. insert_right key acc) [arr ! nat s] ?rest @ ?post)"
    unfolding lp lr d [symmetric] by simp
  then show ?thesis
    using slice_decomp(3) [OF assms]
    by (simp add: sort_insertion_def foldl_insert_right_sort)
qed

lemma sort_insertion_empty_range:
  "e \<le> s \<Longrightarrow> sort_insertion arr s e = Inr arr"
  by (simp add: sort_insertion_def sort_insertion_for.simps)

lemma slice_middle:
  "length p = nat s \<Longrightarrow> length m = nat (e - s + 1) \<Longrightarrow> slice (p @ m @ q) s e = m"
  by (simp add: slice_def)

lemma take_front: "length p = n \<Longrightarrow> take n (p @ q) = p"
  by simp


text \<open>
  C7. For every array and every range \<open>0 \<le> s \<le> e < length arr\<close>,
  \<open>sort_insertion arr s e\<close> returns normally; the range \<open>arr[s..e]\<close> of the result is
  non-decreasing and a permutation of the range it had before; it is stable (for every
  value, the elements of the range equal to it are the same list before and after; the
  result is what the stable library sort gives on that range); every element before \<open>s\<close>
  or after \<open>e\<close> is unchanged; and with \<open>e \<le> s\<close> the array is unchanged.\<close>

theorem sort_insertion_sorts_range:
  assumes "0 \<le> s" "s \<le> e" "e < int (length arr)"
  shows "\<exists>arr'. sort_insertion arr s e = Inr arr'
           \<and> length arr' = length arr
           \<and> sorted (slice arr' s e)
           \<and> mset (slice arr' s e) = mset (slice arr s e)
           \<and> (\<forall>k. filter (\<lambda>x. x = k) (slice arr' s e)
                    = filter (\<lambda>x. x = k) (slice arr s e))
           \<and> slice arr' s e = sort_key (\<lambda>x. x) (slice arr s e)
           \<and> take (nat s) arr' = take (nat s) arr
           \<and> drop (nat e + 1) arr' = drop (nat e + 1) arr
           \<and> (e \<le> s \<longrightarrow> arr' = arr)"
proof -
  let ?seg = "slice arr s e"
  let ?r = "take (nat s) arr @ sort ?seg @ drop (nat e + 1) arr"
  have run: "sort_insertion arr s e = Inr ?r"
    by (rule sort_insertion_eq [OF assms])
  have len: "length ?r = length arr"
    using arg_cong [OF slice_decomp(1) [OF assms], of length] by simp
  have ls: "length (take (nat s) arr) = nat s"
    using assms by simp
  have lseg: "length (sort ?seg) = nat (e - s + 1)"
    using slice_decomp(2) [OF assms] by simp
  have seg: "slice ?r s e = sort ?seg"
    by (rule slice_middle [OF ls lseg])
  have pre: "take (nat s) ?r = take (nat s) arr"
    by (rule take_front [OF ls])
  have "nat e + 1 = length (take (nat s) arr @ sort ?seg)"
    using ls lseg assms by simp
  then have post: "drop (nat e + 1) ?r = drop (nat e + 1) arr"
    by (metis append.assoc append_eq_conv_conj)
  have stable: "filter (\<lambda>x. x = k) (sort ?seg) = filter (\<lambda>x. x = k) ?seg" for k
    by (rule sort_key_stable)
  have noop: "e \<le> s \<longrightarrow> ?r = arr"
    using run sort_insertion_empty_range [of e s arr] by auto
  show ?thesis
    using run len seg pre post stable noop by (intro exI [of _ ?r]) simp
qed

text \<open>
  C7, witness: the theorem on the range \<open>1..4\<close> of \<open>[5, 3, 1, 2, 1, 0]\<close> and on the
  one-element range \<open>1..1\<close> of \<open>[5, 3, 1]\<close>.\<close>

theorem sort_insertion_sorts_range_witness:
  "sort_insertion [5, 3, 1, 2, 1, 0] 1 4 = Inr [5, 1, 1, 2, 3, 0]
   \<and> sort_insertion [5, 3, 1] 1 1 = Inr [5, 3, 1]"
proof -
  have h: "(0::int) \<le> 1" "(1::int) \<le> 4" "4 < int (length [5, 3, 1, 2, 1, 0 :: int])"
    by simp_all
  obtain arr' where run: "sort_insertion [5, 3, 1, 2, 1, 0] 1 4 = Inr arr'"
    and len: "length arr' = length [5, 3, 1, 2, 1, 0 :: int]"
    and seg: "slice arr' 1 4 = sort_key (\<lambda>x. x) (slice [5, 3, 1, 2, 1, 0] 1 4)"
    and pre: "take (nat 1) arr' = take (nat 1) [5, 3, 1, 2, 1, 0]"
    and post: "drop (nat 4 + 1) arr' = drop (nat 4 + 1) [5, 3, 1, 2, 1, 0]"
    using sort_insertion_sorts_range [OF h] by blast
  have "arr' = take (nat 1) arr' @ slice arr' 1 4 @ drop (nat 4 + 1) arr'"
    by (rule slice_decomp(1)) (simp_all add: len)
  then have a: "arr' = [5, 1, 1, 2, 3, 0]"
    unfolding seg pre post by (simp add: slice_def)
  have g: "(0::int) \<le> 1" "(1::int) \<le> 1" "1 < int (length [5, 3, 1 :: int])"
    by simp_all
  have "sort_insertion [5, 3, 1] 1 1 = Inr [5, 3, 1]"
    using sort_insertion_sorts_range [OF g] by auto
  with run a show ?thesis by simp
qed

section \<open>Correctness of \<^verbatim>\<open>sort_counting\<close>\<close>

subsection \<open>Positions in a stably sorted list\<close>

lemma count_below_Suc: "count_below f xs (k + 1) = count_below f xs k + count_eq f xs k"
  by (induction xs) (auto simp: count_below_def count_eq_def)

lemma count_below_bounds: "0 \<le> count_below f xs k" "count_below f xs k \<le> int (length xs)"
  by (simp_all add: count_below_def)

lemma count_below_none: "\<forall>x\<in>set xs. k \<le> f x \<Longrightarrow> count_below f xs k = 0"
  by (induction xs) (auto simp: count_below_def)

lemma count_below_all: "\<forall>x\<in>set xs. f x < k \<Longrightarrow> count_below f xs k = int (length xs)"
  by (induction xs) (auto simp: count_below_def)

lemma count_eq_take_Suc:
  "i < length xs \<Longrightarrow>
   count_eq f (take (Suc i) xs) k = count_eq f (take i xs) k + (if f (xs ! i) = k then 1 else 0)"
  by (simp add: count_eq_def take_Suc_conv_app_nth)

lemma count_eq_take_le: "count_eq f (take i xs) k \<le> count_eq f xs k"
proof -
  have "filter (\<lambda>x. f x = k) xs
        = filter (\<lambda>x. f x = k) (take i xs) @ filter (\<lambda>x. f x = k) (drop i xs)"
    by (metis append_take_drop_id filter_append)
  then show ?thesis by (simp add: count_eq_def)
qed

lemma filter_nth_take:
  assumes "j < length xs" "P (xs ! j)"
  shows "filter P xs ! length (filter P (take j xs)) = xs ! j"
proof -
  have "xs = take j xs @ xs ! j # drop (Suc j) xs"
    using assms(1) by (simp add: id_take_nth_drop [symmetric])
  then have "filter P xs = filter P (take j xs) @ xs ! j # filter P (drop (Suc j) xs)"
    using assms(2) by (metis filter.simps(2) filter_append)
  then show ?thesis by (simp add: nth_append)
qed

lemma sorted_key_split:
  "sorted (map f ys) \<Longrightarrow>
   filter (\<lambda>x. f x < k) ys @ filter (\<lambda>x. f x = k) ys @ filter (\<lambda>x. k < f x) ys = ys"
proof (induction ys)
  case Nil
  show ?case by simp
next
  case (Cons y ys)
  then have le: "\<forall>z\<in>set ys. f y \<le> f z"
    and IH: "filter (\<lambda>x. f x < k) ys @ filter (\<lambda>x. f x = k) ys @ filter (\<lambda>x. k < f x) ys = ys"
    by auto
  consider "f y < k" | "f y = k" | "k < f y" using less_linear by blast
  then show ?case
  proof cases
    case 1
    with IH show ?thesis by auto
  next
    case 2
    with le have "filter (\<lambda>x. f x < k) ys = []" by (auto simp: filter_empty_conv)
    with 2 IH show ?thesis by auto
  next
    case 3
    with le have "filter (\<lambda>x. f x < k) ys = []" "filter (\<lambda>x. f x = k) ys = []"
      by (auto simp: filter_empty_conv)
    with 3 IH show ?thesis by auto
  qed
qed

lemma sort_key_nth:
  fixes f :: "'a \<Rightarrow> int"
  assumes "j < length xs"
  shows "sort_key f xs ! nat (count_below f xs (f (xs ! j)) + count_eq f (take j xs) (f (xs ! j)))
         = xs ! j"
proof -
  let ?k = "f (xs ! j)" and ?T = "sort_key f xs"
  let ?A = "filter (\<lambda>x. f x < ?k) ?T" and ?B = "filter (\<lambda>x. f x = ?k) ?T"
  let ?C = "filter (\<lambda>x. ?k < f x) ?T"
  let ?c = "length (filter (\<lambda>x. f x = ?k) (take j xs))"
  have T: "?T = ?A @ ?B @ ?C"
    by (rule sorted_key_split [symmetric]) simp
  have "mset ?A = mset (filter (\<lambda>x. f x < ?k) xs)"
    by simp
  then have lA: "length ?A = length (filter (\<lambda>x. f x < ?k) xs)"
    by (rule mset_eq_length)
  have B: "?B = filter (\<lambda>x. f x = ?k) xs"
    by (rule sort_key_stable)
  have nth: "filter (\<lambda>x. f x = ?k) xs ! ?c = xs ! j"
    by (rule filter_nth_take [OF assms]) simp
  have "count_eq f (take (Suc j) xs) ?k \<le> count_eq f xs ?k"
    by (rule count_eq_take_le)
  then have lt: "?c < length ?B"
    unfolding B using count_eq_take_Suc [OF assms, of f ?k] by (simp add: count_eq_def)
  have "nat (count_below f xs ?k + count_eq f (take j xs) ?k) = length ?A + ?c"
    by (simp add: count_below_def count_eq_def lA nat_add_distrib)
  moreover have "(?A @ ?B @ ?C) ! (length ?A + ?c) = ?B ! ?c"
    using lt by (simp add: nth_append)
  ultimately show ?thesis
    using T B nth by metis
qed

subsection \<open>The loops\<close>

lemma digit_of_in_range: "0 \<le> d \<Longrightarrow> d \<le> 3 \<Longrightarrow> digit_of d x = Inr (radix_digit d x)"
  by (simp add: digit_of_def shr_def radix_digit_def)

lemma radix_digit_bounds: "0 \<le> radix_digit d x" "radix_digit d x < 256"
proof -
  show "0 \<le> radix_digit d x" by (simp add: radix_digit_def)
  have "radix_digit d x \<le> 255"
    unfolding radix_digit_def by (rule AND_upper2) simp
  then show "radix_digit d x < 256" by simp
qed

lemma count_eq_Cons: "count_eq f (x # xs) k = (if f x = k then 1 else 0) + count_eq f xs k"
  by (simp add: count_eq_def)

lemma slice_empty: "e < i \<Longrightarrow> slice a i e = []"
  by (simp add: slice_def)

lemma count_digits_total:
  assumes "0 \<le> d" "d \<le> 3"
  shows "length l = 256 \<Longrightarrow> 0 \<le> i \<Longrightarrow> e < int (length arr) \<Longrightarrow>
         \<exists>l'. count_digits arr e d i l = Inr l' \<and> length l' = 256
            \<and> (\<forall>k<256. l' ! k = l ! k + count_eq (radix_digit d) (slice arr i e) (int k))"
proof (induction "nat (e + 1 - i)" arbitrary: i l)
  case 0
  then have "e < i" by simp
  then show ?case
    using "0.prems" by (subst count_digits.simps) (simp add: slice_empty count_eq_def)
next
  case (Suc m)
  then have ie: "i \<le> e" by linarith
  let ?x = "arr ! nat i"
  let ?k0 = "radix_digit d ?x"
  let ?l1 = "l[nat ?k0 := l ! nat ?k0 + 1]"
  have k0: "0 \<le> ?k0" "?k0 < 256" by (rule radix_digit_bounds)+
  have r1: "rd arr i = Inr ?x" using Suc.prems ie by (simp add: rd_ok)
  have r2: "rd l ?k0 = Inr (l ! nat ?k0)" using k0 Suc.prems by (simp add: rd_ok)
  have w1: "wr l ?k0 (l ! nat ?k0 + 1) = Inr ?l1" using k0 Suc.prems by (simp add: wr_ok)
  have step: "count_digits arr e d i l = count_digits arr e d (i + 1) ?l1"
    using ie r1 r2 w1 digit_of_in_range [OF assms, of ?x]
    by (subst count_digits.simps) simp
  have "m = nat (e + 1 - (i + 1))" using Suc.hyps(2) by linarith
  from Suc.hyps(1) [OF this, of ?l1] Suc.prems obtain l' where
    run: "count_digits arr e d (i + 1) ?l1 = Inr l'" and len: "length l' = 256" and
    cnt: "\<forall>k<256. l' ! k = ?l1 ! k + count_eq (radix_digit d) (slice arr (i + 1) e) (int k)"
    by auto
  have sl: "slice arr i e = ?x # slice arr (i + 1) e"
    using slice_decomp(3) [of i e arr] Suc.prems ie by simp
  have "l' ! k = l ! k + count_eq (radix_digit d) (slice arr i e) (int k)" if "k < 256" for k
  proof (cases "k = nat ?k0")
    case True
    then have eq: "radix_digit d ?x = int k" using k0 by simp
    from True that Suc.prems(1) have "?l1 ! k = l ! k + 1" by simp
    with cnt that eq show ?thesis
      by (simp add: sl count_eq_Cons)
  next
    case False
    then have ne: "radix_digit d ?x \<noteq> int k" by auto
    from False have "?l1 ! k = l ! k" by simp
    with cnt that ne show ?thesis
      by (simp add: sl count_eq_Cons)
  qed
  with step run len show ?case by simp
qed

lemma accumulate_total:
  "length l = 256 \<Longrightarrow> length g = 256 \<Longrightarrow> 0 \<le> i \<Longrightarrow>
   \<exists>g'. accumulate l i g = Inr g' \<and> length g' = 256
      \<and> (\<forall>k<256. g' ! k = (if i \<le> int k then g ! k + l ! k else g ! k))"
proof (induction "nat (RADIX - i)" arbitrary: i g)
  case 0
  then have "\<not> i < RADIX" by simp
  then show ?case
    using "0.prems" by (subst accumulate.simps) (auto simp: RADIX_def)
next
  case (Suc m)
  then have ir: "i < RADIX" and i256: "i < 256" by (simp_all add: RADIX_def)
  let ?g1 = "g[nat i := g ! nat i + l ! nat i]"
  have step: "accumulate l i g = accumulate l (i + 1) ?g1"
    using ir i256 Suc.prems by (subst accumulate.simps) (simp add: rd_ok wr_ok)
  have "m = nat (RADIX - (i + 1))" using Suc.hyps(2) by linarith
  from Suc.hyps(1) [OF this, of ?g1] Suc.prems obtain g' where
    run: "accumulate l (i + 1) ?g1 = Inr g'" and len: "length g' = 256" and
    val: "\<forall>k<256. g' ! k = (if i + 1 \<le> int k then ?g1 ! k + l ! k else ?g1 ! k)"
    by auto
  have "g' ! k = (if i \<le> int k then g ! k + l ! k else g ! k)" if "k < 256" for k
  proof (cases "k = nat i")
    case True
    with val that Suc.prems show ?thesis by simp
  next
    case False
    then have "?g1 ! k = g ! k" by simp
    moreover from False Suc.prems have "i + 1 \<le> int k \<longleftrightarrow> i \<le> int k" by linarith
    ultimately show ?thesis using val that by simp
  qed
  with step run len show ?case by simp
qed

lemma prefix_sums_total:
  "length g = 256 \<Longrightarrow> 1 \<le> i \<Longrightarrow>
   \<exists>g'. prefix_sums i g = Inr g' \<and> length g' = 256
      \<and> (\<forall>k<256. g' ! k = (if int k < i then g ! k
                             else g ! nat (i - 1) + (\<Sum>j = nat i..k. g ! j)))"
proof (induction "nat (RADIX - i)" arbitrary: i g)
  case 0
  then have "\<not> i < RADIX" by simp
  then show ?case
    using "0.prems" by (subst prefix_sums.simps) (auto simp: RADIX_def)
next
  case (Suc m)
  then have ir: "i < RADIX" and i256: "i < 256" by (simp_all add: RADIX_def)
  let ?g1 = "g[nat i := g ! nat i + g ! nat (i - 1)]"
  have step: "prefix_sums i g = prefix_sums (i + 1) ?g1"
    using ir i256 Suc.prems by (subst prefix_sums.simps) (simp add: rd_ok wr_ok)
  have "m = nat (RADIX - (i + 1))" using Suc.hyps(2) by linarith
  from Suc.hyps(1) [OF this, of ?g1] Suc.prems obtain g' where
    run: "prefix_sums (i + 1) ?g1 = Inr g'" and len: "length g' = 256" and
    val: "\<forall>k<256. g' ! k = (if int k < i + 1 then ?g1 ! k
                             else ?g1 ! nat (i + 1 - 1) + (\<Sum>j = nat (i + 1)..k. ?g1 ! j))"
    by auto
  have ni: "nat (i + 1) = Suc (nat i)" using Suc.prems by linarith
  have "g' ! k = (if int k < i then g ! k else g ! nat (i - 1) + (\<Sum>j = nat i..k. g ! j))"
    if "k < 256" for k
  proof -
    consider "int k < i" | "k = nat i" | "i < int k" by linarith
    then show ?thesis
    proof cases
      case 1
      then have "k \<noteq> nat i" by linarith
      with 1 val that show ?thesis by simp
    next
      case 2
      with val that Suc.prems i256 show ?thesis by simp
    next
      case 3
      then have lt: "nat i < k" using Suc.prems by linarith
      have "(\<Sum>j = Suc (nat i)..k. ?g1 ! j) = (\<Sum>j = Suc (nat i)..k. g ! j)"
        by (rule sum.cong) auto
      moreover have "(\<Sum>j = nat i..k. g ! j) = g ! nat i + (\<Sum>j = Suc (nat i)..k. g ! j)"
        using lt by (simp add: sum.atLeast_Suc_atMost)
      ultimately show ?thesis
        using 3 val that Suc.prems i256 by (simp add: ni)
    qed
  qed
  with step run len show ?case by simp
qed

lemma length_running_sums: "length (running_sums acc xs) = length xs"
  by (induction xs arbitrary: acc) simp_all

lemma nth_running_sums:
  "k < length xs \<Longrightarrow> running_sums acc xs ! k = acc + (\<Sum>j = 0..k. xs ! j)"
proof (induction xs arbitrary: acc k)
  case Nil
  then show ?case by simp
next
  case (Cons x xs)
  show ?case
  proof (cases k)
    case 0
    then show ?thesis by simp
  next
    case (Suc k')
    with Cons.prems have k': "k' < length xs" by simp
    have "(\<Sum>j = 0..Suc k'. (x # xs) ! j) = x + (\<Sum>j = 0..k'. xs ! j)"
      by (simp add: sum.atLeast0_atMost_Suc_shift del: sum.cl_ivl_Suc)
    with Cons.IH [OF k', of "acc + x"] Suc show ?thesis by simp
  qed
qed

text \<open>
  The second and the third loop in closed form, on count arrays of length 256. The two
  equations after them are the loops' defining equations with the closed form in front;
  as code equations they shorten the evaluation of the program on concrete arrays.\<close>

lemma prefix_sums_closed:
  assumes "length g = 256"
  shows "prefix_sums 1 g = Inr (running_sums 0 g)"
proof -
  from prefix_sums_total [OF assms, of 1] obtain g' where
    run: "prefix_sums 1 g = Inr g'" and len: "length g' = 256" and
    v: "\<forall>k<256. g' ! k = (if int k < 1 then g ! k
                             else g ! nat (1 - 1) + (\<Sum>j = nat 1..k. g ! j))"
    by auto
  have "g' = running_sums 0 g"
  proof (rule nth_equalityI)
    show "length g' = length (running_sums 0 g)"
      using len assms by (simp add: length_running_sums)
    fix k
    assume "k < length g'"
    then have k: "k < 256" using len by simp
    show "g' ! k = running_sums 0 g ! k"
    proof (cases "k = 0")
      case True
      with v k assms show ?thesis by (simp add: nth_running_sums)
    next
      case False
      then have "(\<Sum>j = 0..k. g ! j) = g ! 0 + (\<Sum>j = Suc 0..k. g ! j)"
        by (simp add: sum.atLeast_Suc_atMost)
      with v k assms False show ?thesis by (simp add: nth_running_sums)
    qed
  qed
  with run show ?thesis by simp
qed

lemma accumulate_closed:
  assumes "length l = 256" "length g = 256"
  shows "accumulate l 0 g = Inr (map2 (+) g l)"
proof -
  from accumulate_total [OF assms, of 0] obtain g' where
    run: "accumulate l 0 g = Inr g'" and len: "length g' = 256" and
    v: "\<forall>k<256. g' ! k = g ! k + l ! k"
    by auto
  have "g' = map2 (+) g l"
    by (rule nth_equalityI) (use len v assms in auto)
  with run show ?thesis by simp
qed

lemma accumulate_code [code]:
  "accumulate l i g =
     (if i = 0 \<and> length l = 256 \<and> length g = 256 then Inr (map2 (+) g l)
      else if i < RADIX then
        (case rd g i of
           Inl e \<Rightarrow> Inl e
         | Inr c \<Rightarrow>
             (case rd l i of
                Inl e \<Rightarrow> Inl e
              | Inr b \<Rightarrow>
                  (case wr g i (c + b) of
                     Inl e \<Rightarrow> Inl e
                   | Inr g' \<Rightarrow> accumulate l (i + 1) g')))
      else Inr g)"
  using accumulate_closed [of l g] accumulate.simps [of l i g] by auto

lemma prefix_sums_code [code]:
  "prefix_sums i g =
     (if i = 1 \<and> length g = 256 then Inr (running_sums 0 g)
      else if i < RADIX then
        (case rd g i of
           Inl e \<Rightarrow> Inl e
         | Inr c \<Rightarrow>
             (case rd g (i - 1) of
                Inl e \<Rightarrow> Inl e
              | Inr p \<Rightarrow>
                  (case wr g i (c + p) of
                     Inl e \<Rightarrow> Inl e
                   | Inr g' \<Rightarrow> prefix_sums (i + 1) g')))
      else Inr g)"
  using prefix_sums_closed [of g] prefix_sums.simps [of i g] by auto

lemma copy_back_result:
  "copy_back out s e i arr = Inr arr' \<Longrightarrow>
   length arr' = length arr
   \<and> (\<forall>k. i \<le> k \<and> k \<le> e \<longrightarrow>
          0 \<le> k \<and> k < int (length arr) \<and> rd out (k - s) = Inr (Some (arr' ! nat k)))
   \<and> (\<forall>j. int j < i \<or> e < int j \<longrightarrow> arr' ! j = arr ! j)"
proof (induction "nat (e + 1 - i)" arbitrary: i arr)
  case 0
  then have "\<not> i \<le> e" by simp
  with "0.prems" have "arr' = arr"
    by (subst (asm) copy_back.simps) simp
  with \<open>\<not> i \<le> e\<close> show ?case by auto
next
  case (Suc m)
  then have ie: "i \<le> e" by linarith
  from Suc.prems ie obtain x arr1 where
    r: "rd out (i - s) = Inr (Some x)" and w: "wr arr i x = Inr arr1" and
    run: "copy_back out s e (i + 1) arr1 = Inr arr'"
    by (subst (asm) copy_back.simps) (auto split: sum.splits option.splits)
  from w have i0: "0 \<le> i" and il: "i < int (length arr)" and a1: "arr1 = arr[nat i := x]"
    by (auto simp: wr_def split: if_splits)
  have "m = nat (e + 1 - (i + 1))" using Suc.hyps(2) by linarith
  from Suc.hyps(1) [OF this run] have
    len: "length arr' = length arr1" and
    rng: "\<forall>k. i + 1 \<le> k \<and> k \<le> e \<longrightarrow>
            0 \<le> k \<and> k < int (length arr1) \<and> rd out (k - s) = Inr (Some (arr' ! nat k))" and
    oth: "\<forall>j. int j < i + 1 \<or> e < int j \<longrightarrow> arr' ! j = arr1 ! j"
    by auto
  have at_i: "arr' ! nat i = x"
    using oth [rule_format, of "nat i"] i0 il a1 by simp
  have A: "length arr' = length arr" using len a1 by simp
  have B: "0 \<le> k \<and> k < int (length arr) \<and> rd out (k - s) = Inr (Some (arr' ! nat k))"
    if "i \<le> k \<and> k \<le> e" for k
  proof (cases "k = i")
    case True
    with r at_i i0 il show ?thesis by simp
  next
    case False
    with that rng [rule_format, of k] a1 show ?thesis by simp
  qed
  have C: "arr' ! j = arr ! j" if "int j < i \<or> e < int j" for j
  proof -
    have "j \<noteq> nat i"
    proof
      assume "j = nat i"
      with i0 have "int j = i" by simp
      with that ie show False by linarith
    qed
    then have "arr1 ! j = arr ! j" using a1 by simp
    moreover from that have "int j < i + 1 \<or> e < int j" by linarith
    with oth have "arr' ! j = arr1 ! j" by blast
    ultimately show ?thesis by simp
  qed
  from A B C show ?case by blast
qed

lemma copy_back_total:
  "0 \<le> i \<Longrightarrow> e < int (length arr) \<Longrightarrow>
   (\<forall>k. i \<le> k \<and> k \<le> e \<longrightarrow> (\<exists>x. rd out (k - s) = Inr (Some x))) \<Longrightarrow>
   \<exists>arr'. copy_back out s e i arr = Inr arr'"
proof (induction "nat (e + 1 - i)" arbitrary: i arr)
  case 0
  then have "\<not> i \<le> e" by simp
  then show ?case by (subst copy_back.simps) simp
next
  case (Suc m)
  then have ie: "i \<le> e" by linarith
  with Suc.prems obtain x where r: "rd out (i - s) = Inr (Some x)" by blast
  have w: "wr arr i x = Inr (arr[nat i := x])"
    using Suc.prems ie by (simp add: wr_ok)
  have step: "copy_back out s e i arr = copy_back out s e (i + 1) (arr[nat i := x])"
    using ie r w by (subst copy_back.simps) simp
  have "m = nat (e + 1 - (i + 1))" using Suc.hyps(2) by linarith
  from Suc.hyps(1) [OF this, of "arr[nat i := x]"] Suc.prems
  have "\<exists>arr'. copy_back out s e (i + 1) (arr[nat i := x]) = Inr arr'"
    by simp
  with step show ?case by simp
qed

lemma sum_count_eq:
  assumes "\<forall>x\<in>set xs. 0 \<le> f x"
  shows "(\<Sum>j = 0..k. count_eq f xs (int j)) = count_below f xs (int k + 1)"
proof (induction k)
  case 0
  show ?case
    using count_below_Suc [of f xs 0] count_below_none [of xs 0 f] assms by simp
next
  case (Suc k)
  show ?case
    using Suc count_below_Suc [of f xs "int k + 1"] by (simp add: add.commute)
qed

lemma bucket_below:
  assumes "\<forall>x\<in>set xs. 0 \<le> f x"
  shows "int p < count_below f xs (int K) \<Longrightarrow>
         \<exists>k<K. count_below f xs (int k) \<le> int p \<and> int p < count_below f xs (int k + 1)"
proof (induction K)
  case 0
  with count_below_none [of xs 0 f] assms show ?case by simp
next
  case (Suc K)
  show ?case
  proof (cases "int p < count_below f xs (int K)")
    case True
    from Suc.IH [OF this] show ?thesis using less_Suc_eq by auto
  next
    case False
    with Suc.prems have "count_below f xs (int K) \<le> int p \<and> int p < count_below f xs (int K + 1)"
      by (simp add: add.commute)
    then show ?thesis by blast
  qed
qed

lemma bucket_exists:
  assumes "\<forall>x\<in>set xs. 0 \<le> f x \<and> f x < 256" "p < length xs"
  shows "\<exists>k<256. count_below f xs (int k) \<le> int p \<and> int p < count_below f xs (int k + 1)"
proof -
  have "count_below f xs (int 256) = int (length xs)"
    by (rule count_below_all) (use assms in simp)
  with assms(2) have "int p < count_below f xs (int 256)" by simp
  moreover from assms(1) have "\<forall>x\<in>set xs. 0 \<le> f x" by blast
  ultimately show ?thesis by (rule bucket_below [rotated])
qed

lemma distribute_total:
  assumes d: "0 \<le> d" "d \<le> 3"
  shows "length g = 256 \<Longrightarrow> length out = length arr \<Longrightarrow> - 1 \<le> i \<Longrightarrow> i < int (length arr) \<Longrightarrow>
     (\<forall>k<256. g ! k = count_below (radix_digit d) arr (int k)
                        + count_eq (radix_digit d) (take (nat (i + 1)) arr) (int k)) \<Longrightarrow>
     (\<forall>p<length arr.
         (\<exists>k<256. g ! k \<le> int p \<and> int p < count_below (radix_digit d) arr (int k + 1))
         \<longrightarrow> out ! p = Some (sort_key (radix_digit d) arr ! p)) \<Longrightarrow>
     \<exists>g' out'. distribute arr 0 d i g out = Inr (g', out')
        \<and> length out' = length arr \<and> length g' = 256
        \<and> (\<forall>k<256. g' ! k = count_below (radix_digit d) arr (int k))
        \<and> (\<forall>p<length arr.
              (\<exists>k<256. count_below (radix_digit d) arr (int k) \<le> int p
                        \<and> int p < count_below (radix_digit d) arr (int k + 1))
              \<longrightarrow> out' ! p = Some (sort_key (radix_digit d) arr ! p))"
proof (induction "nat (i + 1)" arbitrary: i g out)
  case 0
  then have i: "i = - 1" by simp
  have "distribute arr 0 d i g out = Inr (g, out)"
    using i by (subst distribute.simps) simp
  moreover have gk: "\<forall>k<256. g ! k = count_below (radix_digit d) arr (int k)"
    using "0.prems"(5) i by (simp add: count_eq_def)
  moreover have "out ! p = Some (sort_key (radix_digit d) arr ! p)"
    if "p < length arr"
       "\<exists>k<256. count_below (radix_digit d) arr (int k) \<le> int p
                 \<and> int p < count_below (radix_digit d) arr (int k + 1)" for p
  proof -
    from that(2) gk have "\<exists>k<256. g ! k \<le> int p
                 \<and> int p < count_below (radix_digit d) arr (int k + 1)" by auto
    with "0.prems"(6) that(1) show ?thesis by blast
  qed
  ultimately show ?case
    using "0.prems"(1,2) by blast
next
  case (Suc m)
  let ?f = "radix_digit d"
  let ?T = "sort_key ?f arr"
  let ?cb = "count_below ?f arr"
  from Suc.hyps(2) have i0: "0 \<le> i" by linarith
  with Suc.prems have il: "nat i < length arr" by linarith
  let ?x = "arr ! nat i"
  let ?k0 = "?f ?x"
  have k0: "0 \<le> ?k0" "?k0 < 256" by (rule radix_digit_bounds)+
  then have nk0: "nat ?k0 < 256" by linarith
  let ?c = "g ! nat ?k0"
  let ?ci = "count_eq ?f (take (nat i) arr) ?k0"
  have ni: "nat (i + 1) = Suc (nat i)" using i0 by linarith
  have ci0: "0 \<le> ?ci" by (simp add: count_eq_def)
  have c: "?c = ?cb ?k0 + ?ci + 1"
    using Suc.prems(5) [rule_format, OF nk0] k0 count_eq_take_Suc [OF il, of ?f ?k0]
    by (simp add: ni)
  have "count_eq ?f (take (Suc (nat i)) arr) ?k0 \<le> count_eq ?f arr ?k0"
    by (rule count_eq_take_le)
  then have "?ci + 1 \<le> count_eq ?f arr ?k0"
    using count_eq_take_Suc [OF il, of ?f ?k0] by simp
  then have cle: "?c \<le> ?cb (?k0 + 1)"
    using c count_below_Suc [of ?f arr ?k0] by simp
  have cb0: "0 \<le> ?cb ?k0" by (rule count_below_bounds)
  have cbn: "?cb (?k0 + 1) \<le> int (length arr)" by (rule count_below_bounds)
  have pos0: "0 \<le> ?c - 1" using c cb0 ci0 by linarith
  have posn: "?c - 1 < int (length out)" using cle cbn Suc.prems(2) by linarith
  have Tpos: "?T ! nat (?c - 1) = ?x"
    using sort_key_nth [OF il, of ?f] c by simp
  let ?out1 = "out[nat (?c - 1) := Some ?x]"
  let ?g1 = "g[nat ?k0 := ?c - 1]"
  have step: "distribute arr 0 d i g out = distribute arr 0 d (i - 1) ?g1 ?out1"
    using i0 il k0 pos0 posn Suc.prems(1) digit_of_in_range [OF d, of ?x]
    by (subst distribute.simps) (simp add: rd_ok wr_ok)
  have m: "m = nat (i - 1 + 1)" using Suc.hyps(2) by linarith
  have invg: "\<forall>k<256. ?g1 ! k = ?cb (int k) + count_eq ?f (take (nat (i - 1 + 1)) arr) (int k)"
  proof (intro allI impI)
    fix k :: nat
    assume k: "k < 256"
    show "?g1 ! k = ?cb (int k) + count_eq ?f (take (nat (i - 1 + 1)) arr) (int k)"
    proof (cases "k = nat ?k0")
      case True
      then have "int k = ?k0" using k0 by simp
      moreover have "?g1 ! k = ?c - 1" using True Suc.prems(1) nk0 by simp
      ultimately show ?thesis using c by simp
    next
      case False
      then have ne: "?f ?x \<noteq> int k" by auto
      have "?g1 ! k = g ! k" using False by simp
      then show ?thesis
        using Suc.prems(5) [rule_format, OF k] count_eq_take_Suc [OF il, of ?f "int k"] ne
        by (simp add: ni)
    qed
  qed
  have invo: "\<forall>p<length arr. (\<exists>k<256. ?g1 ! k \<le> int p \<and> int p < ?cb (int k + 1))
                \<longrightarrow> ?out1 ! p = Some (?T ! p)"
  proof (intro allI impI)
    fix p :: nat
    assume p: "p < length arr"
    assume "\<exists>k<256. ?g1 ! k \<le> int p \<and> int p < ?cb (int k + 1)"
    then obtain k where k: "k < 256" "?g1 ! k \<le> int p" "int p < ?cb (int k + 1)"
      by blast
    show "?out1 ! p = Some (?T ! p)"
    proof (cases "p = nat (?c - 1)")
      case True
      have "nat (?c - 1) < length out" using pos0 posn by linarith
      then have "?out1 ! nat (?c - 1) = Some ?x" by simp
      with True Tpos show ?thesis by simp
    next
      case False
      then have ne: "int p \<noteq> ?c - 1" using pos0 by linarith
      have "g ! k \<le> int p"
      proof (cases "k = nat ?k0")
        case True
        then have "?g1 ! k = ?c - 1" using Suc.prems(1) nk0 by simp
        with k(2) have "?c - 1 \<le> int p" by simp
        with ne have "?c \<le> int p" by linarith
        with True show ?thesis by simp
      next
        case False
        then have "?g1 ! k = g ! k" by simp
        with k(2) show ?thesis by simp
      qed
      with k(1,3) have "\<exists>k<256. g ! k \<le> int p \<and> int p < ?cb (int k + 1)" by blast
      with Suc.prems(6) p have "out ! p = Some (?T ! p)" by blast
      with False show ?thesis by simp
    qed
  qed
  have "\<exists>g' out'. distribute arr 0 d (i - 1) ?g1 ?out1 = Inr (g', out')
        \<and> length out' = length arr \<and> length g' = 256
        \<and> (\<forall>k<256. g' ! k = ?cb (int k))
        \<and> (\<forall>p<length arr.
              (\<exists>k<256. ?cb (int k) \<le> int p \<and> int p < ?cb (int k + 1))
              \<longrightarrow> out' ! p = Some (?T ! p))"
  proof (rule Suc.hyps(1) [OF m _ _ _ _ invg invo])
    show "length ?g1 = 256" using Suc.prems(1) by simp
    show "length ?out1 = length arr" using Suc.prems(2) by simp
    show "- 1 \<le> i - 1" using i0 by simp
    show "i - 1 < int (length arr)" using Suc.prems(4) by simp
  qed
  with step show ?case by simp
qed

lemma slice_whole: "slice a 0 (int (length a) - 1) = a"
  by (simp add: slice_def)

lemma sort_counting_full_run:
  assumes d: "0 \<le> d" "d \<le> 3" and len: "length out = length arr"
  shows "\<exists>l' g' out'. sort_counting arr 0 (int (length arr) - 1) d
             (replicate 256 0) (replicate 256 0) out
           = Inr (sort_key (radix_digit d) arr, l', g', out')"
proof -
  let ?f = "radix_digit d"
  let ?T = "sort_key ?f arr"
  let ?cb = "count_below ?f arr"
  let ?Z = "replicate 256 (0::int)"
  let ?e = "int (length arr) - 1"
  have f0: "\<forall>x\<in>set arr. 0 \<le> ?f x" and f256: "\<forall>x\<in>set arr. 0 \<le> ?f x \<and> ?f x < 256"
    using radix_digit_bounds by auto
  \<comment> \<open>first loop\<close>
  from count_digits_total [OF d, of ?Z 0 ?e arr] obtain l1 where
    run1: "count_digits arr ?e d 0 ?Z = Inr l1" and len1: "length l1 = 256" and
    v1: "\<forall>k<256. l1 ! k = count_eq ?f arr (int k)"
    by (auto simp: slice_whole)
  \<comment> \<open>second loop\<close>
  from accumulate_total [OF len1, of ?Z 0] obtain g1 where
    run2: "accumulate l1 0 ?Z = Inr g1" and len2: "length g1 = 256" and
    v2: "\<forall>k<256. g1 ! k = count_eq ?f arr (int k)"
    using v1 by auto
  \<comment> \<open>third loop\<close>
  from prefix_sums_total [OF len2, of 1] obtain g2 where
    run3: "prefix_sums 1 g1 = Inr g2" and len3: "length g2 = 256" and
    v3: "\<forall>k<256. g2 ! k = (if int k < 1 then g1 ! k
                             else g1 ! nat (1 - 1) + (\<Sum>j = nat 1..k. g1 ! j))"
    by auto
  have g2: "g2 ! k = ?cb (int k + 1)" if k: "k < 256" for k
  proof -
    have "(\<Sum>j = 0..k. g1 ! j) = (\<Sum>j = 0..k. count_eq ?f arr (int j))"
      by (rule sum.cong) (use v2 k in auto)
    also have "\<dots> = ?cb (int k + 1)"
      by (rule sum_count_eq [OF f0])
    finally have s: "(\<Sum>j = 0..k. g1 ! j) = ?cb (int k + 1)" .
    show ?thesis
    proof (cases "k = 0")
      case True
      with v3 k s show ?thesis by simp
    next
      case False
      then have "(\<Sum>j = 0..k. g1 ! j) = g1 ! 0 + (\<Sum>j = Suc 0..k. g1 ! j)"
        by (simp add: sum.atLeast_Suc_atMost)
      with v3 k s False show ?thesis by simp
    qed
  qed
  \<comment> \<open>fourth loop\<close>
  have invg: "\<forall>k<256. g2 ! k = ?cb (int k) + count_eq ?f (take (nat (?e + 1)) arr) (int k)"
    using g2 by (simp add: count_below_Suc)
  have invo: "\<forall>p<length arr. (\<exists>k<256. g2 ! k \<le> int p \<and> int p < ?cb (int k + 1))
                \<longrightarrow> out ! p = Some (?T ! p)"
    using g2 by auto
  have "\<exists>g' out'. distribute arr 0 d ?e g2 out = Inr (g', out')
        \<and> length out' = length arr \<and> length g' = 256
        \<and> (\<forall>k<256. g' ! k = ?cb (int k))
        \<and> (\<forall>p<length arr.
              (\<exists>k<256. ?cb (int k) \<le> int p \<and> int p < ?cb (int k + 1))
              \<longrightarrow> out' ! p = Some (?T ! p))"
    by (rule distribute_total [OF d len3 len _ _ invg invo]) simp_all
  then obtain g3 s1 where
    run4: "distribute arr 0 d ?e g2 out = Inr (g3, s1)" and len4: "length s1 = length arr" and
    v4: "\<forall>p<length arr.
              (\<exists>k<256. ?cb (int k) \<le> int p \<and> int p < ?cb (int k + 1))
              \<longrightarrow> s1 ! p = Some (?T ! p)"
    by blast
  have s1: "s1 ! p = Some (?T ! p)" if "p < length arr" for p
    using v4 that bucket_exists [OF f256 that] by blast
  \<comment> \<open>fifth loop\<close>
  have "\<forall>k. 0 \<le> k \<and> k \<le> ?e \<longrightarrow> (\<exists>x. rd s1 (k - 0) = Inr (Some x))"
  proof (intro allI impI)
    fix k :: int
    assume k: "0 \<le> k \<and> k \<le> ?e"
    then have "nat k < length arr" by linarith
    from s1 [OF this] k len4 show "\<exists>x. rd s1 (k - 0) = Inr (Some x)"
      by (simp add: rd_ok)
  qed
  from copy_back_total [OF _ _ this, of arr] obtain arr' where
    run5: "copy_back s1 0 ?e 0 arr = Inr arr'"
    by auto
  from copy_back_result [OF run5] have
    len5: "length arr' = length arr" and
    v5: "\<forall>k. 0 \<le> k \<and> k \<le> ?e \<longrightarrow> rd s1 (k - 0) = Inr (Some (arr' ! nat k))"
    by auto
  have "arr' = ?T"
  proof (rule nth_equalityI)
    show "length arr' = length ?T" using len5 by simp
    fix p
    assume "p < length arr'"
    then have p: "p < length arr" using len5 by simp
    then have "rd s1 (int p - 0) = Inr (Some (arr' ! nat (int p)))"
      using v5 [rule_format, of "int p"] by simp
    moreover have "rd s1 (int p - 0) = Inr (Some (?T ! p))"
      using s1 [OF p] p len4 by (simp add: rd_ok)
    ultimately show "arr' ! p = ?T ! p" by simp
  qed
  with run1 run2 run3 run4 run5 show ?thesis
    by (simp add: sort_counting_def)
qed

subsection \<open>The copy-back step\<close>

text \<open>
  C4, counterexample. The claim: after \<open>sort_counting\<close>, \<open>array[i] = output[i]\<close> for
  every \<open>i\<close> in \<open>[start_idx, end_idx]\<close>. On the range \<open>2..3\<close> of \<open>[5, 3, 2, 1]\<close>, with
  9 in the cells 2 and 3 of the output buffer, the two elements are scattered to the cells
  0 and 1 and copied back from there: at the end the array is \<open>[5, 3, 1, 2]\<close> and the
  buffer \<open>[1, 2, 9, 9]\<close>, so \<open>array[2] = 1\<close> and \<open>output[2] = 9\<close>.\<close>

theorem sort_counting_copy_back_counterexample:
  "sort_counting [5, 3, 2, 1] 2 3 0 (replicate 256 0) (replicate 256 0)
       [None, None, Some 9, Some 9]
     = Inr ([5, 3, 1, 2], [0, 1, 1] @ replicate 253 0, [0, 0, 1] @ replicate 253 2,
            [Some 1, Some 2, Some 9, Some 9])
   \<and> rd [5, 3, 1, 2 :: int] 2 = Inr 1
   \<and> rd [Some 1, Some 2, Some 9, Some (9 :: int)] 2 = Inr (Some 9)"
  by code_simp

text \<open>
  C4, as amended. Whenever \<open>sort_counting\<close> returns normally (no access out of range, no
  read of a buffer cell that was never written), for every \<open>i\<close> in
  \<open>[start_idx, end_idx]\<close> the final array satisfies
  \<open>array[i] = output[i - start_idx]\<close>: the copy-back loop reads the output buffer from its
  first cell on, as line 91 of the source says.\<close>

theorem sort_counting_copies_back_from_offset:
  assumes "sort_counting arr s e d l g out = Inr (arr', l', g', out')"
    and "s \<le> i" and "i \<le> e"
  shows "\<exists>x. rd arr' i = Inr x \<and> rd out' (i - s) = Inr (Some x)"
proof -
  from assms(1) obtain s1 where
    run: "copy_back s1 s e s arr = Inr arr'" and o: "out' = s1"
    by (auto simp: sort_counting_def split: sum.splits prod.splits)
  from copy_back_result [OF run] assms(2,3) have
    "length arr' = length arr" and
    "0 \<le> i \<and> i < int (length arr) \<and> rd s1 (i - s) = Inr (Some (arr' ! nat i))"
    by auto
  then show ?thesis
    using o by (simp add: rd_ok)
qed

text \<open>
  C4, witness: the run of the counterexample, at \<open>i = 3\<close>: \<open>array[3] = 2 = output[1]\<close>.\<close>

theorem sort_counting_copies_back_from_offset_witness:
  "sort_counting [5, 3, 2, 1] 2 3 0 (replicate 256 0) (replicate 256 0)
       [None, None, Some 9, Some 9]
     = Inr ([5, 3, 1, 2], [0, 1, 1] @ replicate 253 0, [0, 0, 1] @ replicate 253 2,
            [Some 1, Some 2, Some 9, Some 9])
   \<and> (2 :: int) \<le> 3 \<and> (3 :: int) \<le> 3
   \<and> (\<exists>x. rd [5, 3, 1, 2 :: int] 3 = Inr x
          \<and> rd [Some 1, Some 2, Some 9, Some 9] (3 - 2) = Inr (Some x))"
proof -
  have run: "sort_counting [5, 3, 2, 1] 2 3 0 (replicate 256 0) (replicate 256 0)
       [None, None, Some 9, Some 9]
     = Inr ([5, 3, 1, 2], [0, 1, 1] @ replicate 253 0, [0, 0, 1] @ replicate 253 2,
            [Some 1, Some 2, Some 9, Some 9])"
    by code_simp
  have "\<exists>x. rd [5, 3, 1, 2 :: int] 3 = Inr x
          \<and> rd [Some 1, Some 2, Some 9, Some 9] (3 - 2) = Inr (Some x)"
    by (rule sort_counting_copies_back_from_offset [OF run]) simp_all
  with run show ?thesis by simp
qed

subsection \<open>The whole array as one chunk\<close>

text \<open>
  C10, counterexample. The claim: for every \<open>digit_exp \<ge> 0\<close>, \<open>sort_counting\<close> on the
  full range with zeroed count arrays leaves a stable, digit-sorted permutation. With
  \<open>digit_exp = 4\<close> the first digit extraction is \<^verbatim>\<open>arr[0] >> 32\<close> on a 32-bit
  \<^verbatim>\<open>int\<close>. C leaves a shift by the width of the operand or more undefined (ISO C,
  6.5.7), and processors disagree on it: some take the count modulo 32, some give 0. The
  run ends there with no array guaranteed.\<close>

theorem sort_counting_digit_four_counterexample:
  "sort_counting [3, 1, 2] 0 2 4 (replicate 256 0) (replicate 256 0) [None, None, None]
     = Inl Undefined_shift"
  by code_simp

text \<open>
  C10, as amended. For every \<open>n \<ge> 1\<close>, every array \<open>arr\<close> of \<open>n\<close> non-negative integers,
  every \<open>digit_exp\<close> from 0 to 3 (the four 8-bit digits of a 32-bit \<^verbatim>\<open>int\<close>),
  zeroed count arrays of length 256 and a scratch buffer of length \<open>n\<close> with any contents,
  \<open>sort_counting(arr, 0, n - 1, digit_exp, \<dots>)\<close> returns normally and leaves \<open>arr\<close> a
  permutation of its contents, non-decreasing in the digit
  \<^verbatim>\<open>(x >> (8 * digit_exp)) & 0xFF\<close> and stable: for every digit value, the elements
  with that digit are the same list, in the same order, before and after.\<close>

theorem sort_counting_full_range_stable:
  assumes "1 \<le> length arr" and "\<forall>x\<in>set arr. 0 \<le> x"
    and "0 \<le> d" and "d \<le> 3" and "length out = length arr"
  shows "\<exists>arr' l' g' out'.
           sort_counting arr 0 (int (length arr) - 1) d (replicate 256 0) (replicate 256 0) out
             = Inr (arr', l', g', out')
           \<and> mset arr' = mset arr
           \<and> sorted (map (radix_digit d) arr')
           \<and> (\<forall>k. filter (\<lambda>x. radix_digit d x = k) arr'
                    = filter (\<lambda>x. radix_digit d x = k) arr)"
proof -
  from sort_counting_full_run [OF assms(3,4,5)] obtain l' g' out' where
    "sort_counting arr 0 (int (length arr) - 1) d (replicate 256 0) (replicate 256 0) out
       = Inr (sort_key (radix_digit d) arr, l', g', out')"
    by blast
  moreover have "filter (\<lambda>x. radix_digit d x = k) (sort_key (radix_digit d) arr)
                 = filter (\<lambda>x. radix_digit d x = k) arr" for k
    by (rule sort_key_stable)
  ultimately show ?thesis by auto
qed

text \<open>
  C10, witness: the theorem on \<open>[259, 1, 2, 258, 513]\<close> and digit 0. The low bytes are
  \<open>3, 1, 2, 2, 1\<close>; the run gives \<open>[1, 513, 2, 258, 259]\<close>.\<close>

theorem sort_counting_full_range_stable_witness:
  "map_sum id fst (sort_counting [259, 1, 2, 258, 513] 0 4 0 (replicate 256 0)
       (replicate 256 0) [None, None, None, None, None]) = Inr [1, 513, 2, 258, 259]
   \<and> (\<exists>arr' l' g' out'.
           sort_counting [259, 1, 2, 258, 513] 0 4 0 (replicate 256 0) (replicate 256 0)
               [None, None, None, None, None]
             = Inr (arr', l', g', out')
           \<and> mset arr' = mset [259, 1, 2, 258, 513]
           \<and> sorted (map (radix_digit 0) arr')
           \<and> (\<forall>k. filter (\<lambda>x. radix_digit 0 x = k) arr'
                    = filter (\<lambda>x. radix_digit 0 x = k) [259, 1, 2, 258, 513]))"
proof -
  have run: "map_sum id fst (sort_counting [259, 1, 2, 258, 513] 0 4 0 (replicate 256 0)
       (replicate 256 0) [None, None, None, None, None]) = Inr [1, 513, 2, 258, 259]"
    by code_simp
  have h: "1 \<le> length [259, 1, 2, 258, 513 :: int]"
    "\<forall>x\<in>set [259, 1, 2, 258, 513 :: int]. 0 \<le> x" "(0 :: int) \<le> 0" "(0 :: int) \<le> 3"
    "length [None, None, None, None, None :: int option] = length [259, 1, 2, 258, 513 :: int]"
    by simp_all
  from sort_counting_full_range_stable [OF h] run show ?thesis
    by simp
qed

section \<open>The driver on arrays of at most eight elements\<close>

text \<open>
  For \<open>1 \<le> n \<le> 8\<close> the chunk size is 1. The workers 0 to 6 get the one-element
  chunks \<open>(i, i)\<close> and worker 7 the chunk \<open>(7, n - 1)\<close>; each of them calls
  \<open>sort_insertion\<close> on a range with \<open>end_idx \<le> start_idx\<close>, which touches nothing.
  So every pass leaves the array as it is, and \<open>sort_radix\<close> returns its input, sorted
  or not. (The bound \<open>2^24\<close> keeps the loop condition away from the shift by 32 bits.)\<close>

lemma find_max_total:
  "0 \<le> i \<Longrightarrow> n \<le> int (length arr) \<Longrightarrow> m < b \<Longrightarrow> \<forall>x\<in>set arr. x < b \<Longrightarrow>
   \<exists>m'. find_max arr n i m = Inr m' \<and> m' < b"
proof (induction "nat (n - i)" arbitrary: i m)
  case 0
  then have "\<not> i < n" by simp
  with "0.prems" show ?case by (subst find_max.simps) simp
next
  case (Suc k)
  then have lt: "i < n" by linarith
  let ?x = "arr ! nat i"
  have r: "rd arr i = Inr ?x" using Suc.prems lt by (simp add: rd_ok)
  have "nat i < length arr" using Suc.prems lt by linarith
  with Suc.prems(4) have xb: "?x < b" by simp
  have step: "find_max arr n i m = find_max arr n (i + 1) (if ?x > m then ?x else m)"
    using lt r by (subst find_max.simps) simp
  have "k = nat (n - (i + 1))" using Suc.hyps(2) by linarith
  from Suc.hyps(1) [OF this, of "if ?x > m then ?x else m"] Suc.prems xb
  have "\<exists>m'. find_max arr n (i + 1) (if ?x > m then ?x else m) = Inr m' \<and> m' < b"
    by auto
  with step show ?case by simp
qed

lemma chunk_size_short: "1 \<le> n \<Longrightarrow> n \<le> 8 \<Longrightarrow> c_div (n + MAX_THREADS - 1) MAX_THREADS = 1"
  by (simp add: c_div_def MAX_THREADS_def)

lemma worker_short:
  assumes "n \<le> 8" "0 \<le> i" "i < 8"
  shows "sort_radix_thread
           \<lparr>ptr_to_arr = arr, start_idx = fst (chunk n 1 i), end_idx = snd (chunk n 1 i),
            digit_exp = d, cnt_arr_local = l, cnt_arr_global = g, sorted_arr = s\<rparr>
         = Inr (arr, g, s)"
proof -
  have "snd (chunk n 1 i) \<le> fst (chunk n 1 i)"
    using assms by (simp add: chunk_def MAX_THREADS_def)
  then show ?thesis
    by (simp add: sort_radix_thread_def INSERTION_SORT_THRESHOLD_def
        sort_insertion_empty_range)
qed

lemma run_workers_short:
  "n \<le> 8 \<Longrightarrow> 0 \<le> i \<Longrightarrow> run_workers n 1 d i (arr, g, s) = Inr (arr, g, s)"
proof (induction "nat (MAX_THREADS - i)" arbitrary: i)
  case 0
  then have "\<not> i < MAX_THREADS" by simp
  then show ?case by (subst run_workers.simps) simp
next
  case (Suc k)
  then have lt: "i < MAX_THREADS" by linarith
  then have i8: "i < 8" by (simp add: MAX_THREADS_def)
  have "k = nat (MAX_THREADS - (i + 1))" using Suc.hyps(2) by linarith
  from Suc.hyps(1) [OF this] Suc.prems
  have "run_workers n 1 d (i + 1) (arr, g, s) = Inr (arr, g, s)" by simp
  with lt worker_short [OF Suc.prems(1,2) i8] show ?case
    by (subst run_workers.simps) simp
qed

lemma radix_pass_short:
  "1 \<le> n \<Longrightarrow> n \<le> 8 \<Longrightarrow> radix_pass n d (arr, g, s) = Inr (arr, replicate (nat RADIX) 0, s)"
  by (simp add: radix_pass_def chunk_size_short run_workers_short)

lemma radix_passes_short:
  assumes "1 \<le> n" "n \<le> 8" "max_elem < 2 ^ 24"
  shows "0 \<le> d \<Longrightarrow> d \<le> 3 \<Longrightarrow> \<exists>g'. radix_passes n max_elem d (arr, g, s) = Inr (arr, g', s)"
proof (induction "nat (3 - d)" arbitrary: d g)
  case 0
  then have d: "d = 3" by simp
  have "drop_bit 24 max_elem \<le> (0::int)"
    using assms(3) by (simp add: drop_bit_eq_div)
  then show ?case
    using d by (subst radix_passes.simps) (simp add: shr_def)
next
  case (Suc k)
  then have d2: "d \<le> 2" by linarith
  have sh: "shr max_elem (8 * d) = Inr (drop_bit (nat (8 * d)) max_elem)"
    using Suc.prems by (simp add: shr_def)
  have "k = nat (3 - (d + 1))" using Suc.hyps(2) by linarith
  from Suc.hyps(1) [OF this, of "replicate (nat RADIX) 0"] Suc.prems d2
  have "\<exists>g'. radix_passes n max_elem (d + 1) (arr, replicate (nat RADIX) 0, s) = Inr (arr, g', s)"
    by simp
  then show ?case
    using sh radix_pass_short [OF assms(1,2), of d arr g s]
    by (subst radix_passes.simps) auto
qed

lemma sort_radix_short_array:
  assumes "1 \<le> n" "n \<le> 8" "n \<le> int (length arr)" "\<forall>x\<in>set arr. x < 2 ^ 24"
  shows "sort_radix arr n = Inr arr"
proof -
  have ne: "0 < length arr" using assms by linarith
  then have r0: "rd arr 0 = Inr (arr ! 0)" by (simp add: rd_def)
  have "arr ! 0 \<in> set arr" using ne by (rule nth_mem)
  with assms(4) have "arr ! 0 < 2 ^ 24" by blast
  from find_max_total [OF _ assms(3) this assms(4), of 1] obtain m where
    fm: "find_max arr n 1 (arr ! 0) = Inr m" and mb: "m < 2 ^ 24"
    by auto
  from radix_passes_short [OF assms(1,2) mb, of 0 arr "replicate (nat RADIX) 0"
      "replicate (nat n) None"]
  obtain g' where "radix_passes n m 0 (arr, replicate (nat RADIX) 0, replicate (nat n) None)
      = Inr (arr, g', replicate (nat n) None)"
    by auto
  with r0 fm show ?thesis by (simp add: sort_radix_def)
qed

section \<open>The driver on concrete arrays\<close>

text \<open>
  C1. The claim: for every array of \<open>n\<close> non-negative integers, \<open>sort_radix(a, n)\<close>
  terminates with the array sorted, a permutation of the input. On the two-element array
  \<open>[2, 1]\<close> the chunk size is \<open>(2 + 7) / 8 = 1\<close>, every worker gets at most one element
  and takes the insertion-sort branch, which does nothing on one element: the array comes
  back as it was, unsorted. The workers of this run touch disjoint cells and none of the
  shared count and output arrays, so the order in which the threads run plays no part.\<close>

theorem sort_radix_two_elements_unsorted:
  "sort_radix [2, 1] 2 = Inr [2, 1] \<and> \<not> sorted [2, 1 :: int]"
  by code_simp

text \<open>
  C2. The claim: after digit pass \<open>d\<close> the array is a permutation of the original that is
  non-decreasing in \<open>x mod 2^(8(d+1))\<close>. Pass 0 on \<open>[2, 1]\<close> leaves the array as it is,
  and \<open>2 mod 256\<close> is not below \<open>1 mod 256\<close>.\<close>

theorem radix_pass_zero_not_sorted_by_low_byte:
  "map_sum id fst (radix_pass 2 0 ([2, 1], replicate 256 0, [None, None])) = Inr [2, 1]
   \<and> \<not> (2 :: int) mod 2 ^ (8 * (0 + 1)) \<le> 1 mod 2 ^ (8 * (0 + 1))"
  by code_simp

text \<open>
  C3. The claim: for every \<open>n > 0\<close> the eight chunks are contiguous, disjoint and cover
  exactly \<open>[0, n)\<close>, so that no worker touches an index outside \<open>[0, n)\<close>. For \<open>n = 9\<close>
  the chunk size is 2 and worker 4 gets the chunk \<open>(8, 9)\<close>: its insertion sort reads
  and writes \<open>arr[9]\<close>, one past the end of a nine-element array. Only the last chunk is
  cut at \<open>n - 1\<close>.\<close>

theorem chunk_of_nine_leaves_the_array:
  "chunk 9 (c_div (9 + MAX_THREADS - 1) MAX_THREADS) 4 = (8, 9)
   \<and> sort_insertion [1, 2, 3, 4, 5, 6, 7, 8, 9] 8 9 = Inl Out_of_bounds
   \<and> sort_radix [1, 2, 3, 4, 5, 6, 7, 8, 9] 9 = Inl Out_of_bounds"
  by code_simp

text \<open>
  C5. The claim: \<open>sort_radix(array, 0)\<close> returns at once without reading or writing any
  element. The source reads \<open>arr[0]\<close> into \<open>max_elem\<close> before it looks at \<open>n\<close>; on an
  empty array that read is out of bounds.\<close>

theorem sort_radix_empty_reads_first_element:
  "sort_radix [] 0 = Inl Out_of_bounds"
  by code_simp

text \<open>
  C6. The claim: \<open>sort_radix\<close> turns \<open>[170, 45, 75, 90, 802, 24, 2, 66]\<close> into
  \<open>[2, 24, 45, 66, 75, 90, 170, 802]\<close>. With \<open>n = 8\<close> the chunk size is
  \<open>(8 + 7) / 8 = 1\<close>: every worker gets one element and calls \<open>sort_insertion\<close> on
  it, in both passes (\<open>max_elem = 802\<close>), and the input comes back unchanged, whatever
  the order of the threads.\<close>

theorem sort_radix_spec_scenario_unchanged:
  "sort_radix [170, 45, 75, 90, 802, 24, 2, 66] 8 = Inr [170, 45, 75, 90, 802, 24, 2, 66]"
  by code_simp

text \<open>
  C8. The claim: a non-decreasing array of any length is left exactly unchanged.

  On the sorted array of 32 times 254 followed by 232 times 255 (\<open>n = 264\<close>, one pass,
  eight chunks of 33 elements, every worker in the counting-sort branch, every index in
  range) the run ends with eight copies of \<open>[254, \<dots>, 254, 255]\<close>. Worker 0 sorts its
  chunk into the cells \<open>0..32\<close> of the output buffer and leaves 32 in counter 255 of
  the shared count array. Worker 1 adds its 33 to that counter, scatters its chunk (33
  times 255) to the cells \<open>32..64\<close> and copies the cells \<open>0..32\<close>, worker 0's
  output, into its own chunk; so do the workers 2 to 7.

  On the sorted nine-element array \<open>[1, 1, 2, 3, 5, 8, 13, 21, 34]\<close> worker 4 sorts the
  chunk \<open>(8, 9)\<close> and goes past the end of the array. When the caller's buffer is longer
  than \<open>n\<close>, so that the access is defined, the cell after the array takes part in the
  sort: with a 0 behind the nine elements, \<open>arr[8]\<close> becomes 0.\<close>

theorem sort_radix_sorted_input_changed:
  "sort_radix (replicate 32 254 @ replicate 232 255) 264
       = Inr (concat (replicate 8 (replicate 32 254 @ [255])))
   \<and> sort_radix [1, 1, 2, 3, 5, 8, 13, 21, 34] 9 = Inl Out_of_bounds
   \<and> sort_radix ([1, 1, 2, 3, 5, 8, 13, 21, 34] @ [0, 0, 0, 0, 0]) 9
       = Inr ([1, 1, 2, 3, 5, 8, 13, 21, 0] @ [34, 0, 0, 0, 0])"
  by code_simp

text \<open>
  C9. The claim: an array of \<open>n \<ge> 1\<close> copies of one value is left unchanged. For nine
  copies of 7 worker 4 again sorts the chunk \<open>(8, 9)\<close> past the end of the array; with a
  0 behind the nine elements in the caller's buffer, the last copy is replaced by that 0.\<close>

theorem sort_radix_nine_copies_changed:
  "sort_radix (replicate 9 7) 9 = Inl Out_of_bounds
   \<and> sort_radix (replicate 9 7 @ [0, 0, 0, 0, 0]) 9
       = Inr (replicate 8 7 @ [0] @ [7, 0, 0, 0, 0])"
  by code_simp

text \<open>
  The loop condition \<^verbatim>\<open>max_elem >> (8 * digit_exp) > 0\<close> is still true after the
  fourth pass when \<open>max_elem \<ge> 2^24\<close>; the source then evaluates it with
  \<open>digit_exp = 4\<close>, a shift of a 32-bit \<^verbatim>\<open>int\<close> by 32 bits.\<close>

lemma sort_radix_shift_by_width:
  "sort_radix [16777216] 1 = Inl Undefined_shift"
  by code_simp

end
